theory Spec2Isabelle
  imports Complex_Main "HOL-Library.Word" "HOL-Library.Log_Nat" "HOL-Library.Multiset"
begin

unbundle bit_operations_syntax

section \<open>The Bloom filter policy of util/bloom.cc\<close>

text \<open>
  The embedding follows \<^verbatim>\<open>util/bloom.cc\<close> function by function.  The machine model is
  the one LevelDB is built for: \<^verbatim>\<open>int\<close> is a 32-bit two's complement integer,
  \<^verbatim>\<open>size_t\<close> is a 64-bit unsigned integer, \<^verbatim>\<open>uint32_t\<close> is a 32-bit unsigned integer,
  \<^verbatim>\<open>char\<close> is a signed 8-bit integer and \<^verbatim>\<open>double\<close> is IEEE 754 binary64 with
  round-to-nearest-even.  A \<^verbatim>\<open>Slice\<close> and the contents of a \<^verbatim>\<open>std::string\<close> are byte
  lists; \<^verbatim>\<open>size()\<close> is the length of the list read as a \<^verbatim>\<open>size_t\<close>.
\<close>

type_synonym byte = "8 word"
type_synonym uint32_t = "32 word"
type_synonym size_t = "64 word"
type_synonym Slice = "byte list"

text \<open>
  \<^verbatim>\<open>Hash(data, size, seed)\<close> is declared in \<^verbatim>\<open>util/hash.h\<close>, which is not among the
  sources.  Every function below takes it as a parameter, and every theorem holds for
  any such function.
\<close>

type_synonym hash_fn = "Slice \<Rightarrow> uint32_t \<Rightarrow> uint32_t"

definition BloomHash :: "hash_fn \<Rightarrow> Slice \<Rightarrow> uint32_t" where
  "BloomHash Hash key = Hash key 0xbc9f1d34"

text \<open>
  What the C++ abstract machine leaves undefined is an error value of the model:
  a modulo by zero (\<^verbatim>\<open>h % bits\<close> with \<^verbatim>\<open>bits == 0\<close>) and an access to
  \<^verbatim>\<open>array[bitpos/8]\<close> outside the bit array.
\<close>

datatype error = DivisionByZero | OutOfBounds

subsection \<open>The constructor: deriving the probe count\<close>

text \<open>
  The members \<^verbatim>\<open>bits_per_key_\<close> and \<^verbatim>\<open>k_\<close>; a name cannot end with an underscore
  here, so they carry the suffix \<open>m\<close>.
\<close>

record BloomFilterPolicy =
  bits_per_key_m :: size_t
  k_m :: size_t

text \<open>
  The literal \<^verbatim>\<open>0.69\<close> is the binary64 number \<^verbatim>\<open>0x3FE6147AE147AE14\<close>, that is
  \<open>6214967485771284 / 2 ^ 53\<close>.  A double that is a multiple of \<open>2 ^ - 53\<close> is
  represented by its numerator, an integer; the \<^verbatim>\<open>int\<close> argument converts to
  \<^verbatim>\<open>double\<close> exactly, and the product is rounded to 53 significant bits, ties to
  even.
\<close>

definition double_0_69 :: nat where
  "double_0_69 = 6214967485771284"

definition round_binary64 :: "nat \<Rightarrow> nat" where
  "round_binary64 N =
     (let L = floorlog 2 N in
      if L \<le> 53 then N
      else
        let s = L - 53;
            q = N div 2 ^ s;
            r = N mod 2 ^ s;
            half = 2 ^ (s - 1)
        in (if half < r then q + 1
            else if r = half then (if even q then q else q + 1)
            else q) * 2 ^ s)"

definition mul_0_69 :: "int \<Rightarrow> int" where
  "mul_0_69 b = sgn b * int (round_binary64 (nat \<bar>b\<bar> * double_0_69))"

text \<open>
  \<^verbatim>\<open>static_cast<size_t>(d)\<close> truncates towards zero.  When the truncated value is not
  a \<^verbatim>\<open>size_t\<close> (here: when it is negative) C++ does not define the result; the value
  the platform produces is the parameter \<open>cvt\<close>.
\<close>

definition double_to_size_t :: "(int \<Rightarrow> size_t) \<Rightarrow> int \<Rightarrow> size_t" where
  "double_to_size_t cvt d =
     (let t = sgn d * (\<bar>d\<bar> div 2 ^ 53)
      in if 0 \<le> t \<and> t < 2 ^ 64 then word_of_int t else cvt t)"

definition NewBloomFilterPolicy :: "(int \<Rightarrow> size_t) \<Rightarrow> 32 word \<Rightarrow> BloomFilterPolicy" where
  "NewBloomFilterPolicy cvt bits_per_key =
     (let k = double_to_size_t cvt (mul_0_69 (sint bits_per_key));
          k = (if k < 1 then 1 else k);
          k = (if 30 < k then 30 else k)
      in \<lparr>bits_per_key_m = scast bits_per_key, k_m = k\<rparr>)"

subsection \<open>CreateFilter\<close>

text \<open>
  The inner loop \<^verbatim>\<open>for (size_t j = 0; j < k_; j++)\<close> never reads \<open>j\<close>, so the model
  counts the remaining rounds down.  \<open>array\<close> is the region of \<^verbatim>\<open>dst\<close> that starts at
  \<^verbatim>\<open>init_size\<close>; \<open>bytes\<close> is the size of the bit array in it.
\<close>

fun set_probes :: "nat \<Rightarrow> size_t \<Rightarrow> nat \<Rightarrow> uint32_t \<Rightarrow> uint32_t \<Rightarrow> byte list
    \<Rightarrow> error + byte list" where
  "set_probes 0 bits bytes delta h array = Inr array"
| "set_probes (Suc j) bits bytes delta h array =
     (if bits = 0 then Inl DivisionByZero
      else
        let bitpos :: uint32_t = ucast (ucast h mod bits) in
        if bytes \<le> unat (bitpos div 8) then Inl OutOfBounds
        else set_probes j bits bytes delta (h + delta)
               (array[unat (bitpos div 8) :=
                  array ! unat (bitpos div 8) OR push_bit (unat (bitpos mod 8)) 1]))"

fun add_keys :: "hash_fn \<Rightarrow> size_t \<Rightarrow> size_t \<Rightarrow> nat \<Rightarrow> Slice list \<Rightarrow> byte list
    \<Rightarrow> error + byte list" where
  "add_keys Hash k bits bytes [] array = Inr array"
| "add_keys Hash k bits bytes (key # keys) array =
     (let h = BloomHash Hash key;
          delta = drop_bit 17 h OR push_bit 15 h
      in case set_probes (unat k) bits bytes delta h array of
           Inl e \<Rightarrow> Inl e
         | Inr array' \<Rightarrow> add_keys Hash k bits bytes keys array')"

text \<open>
  \<^verbatim>\<open>CreateFilter(keys, n, dst)\<close> with \<open>n\<close> the number of keys: \<open>n\<close> is an \<^verbatim>\<open>int\<close>
  converted to \<^verbatim>\<open>size_t\<close> for the product.  The result is the new contents of
  \<^verbatim>\<open>dst\<close>.
\<close>

definition CreateFilter :: "hash_fn \<Rightarrow> BloomFilterPolicy \<Rightarrow> Slice list \<Rightarrow> byte list
    \<Rightarrow> error + byte list" where
  "CreateFilter Hash this keys dst =
     (let n :: size_t = of_nat (length keys);
          bits = n * bits_per_key_m this;
          bits = (if bits < 64 then 64 else bits);
          bytes = (bits + 7) div 8;
          bits = bytes * 8;
          array = replicate (unat bytes) 0 @ [ucast (k_m this)]
      in case add_keys Hash (k_m this) bits (unat bytes) keys array of
           Inl e \<Rightarrow> Inl e
         | Inr array' \<Rightarrow> Inr (dst @ array'))"

subsection \<open>KeyMayMatch\<close>

text \<open>
  The probe loop of \<^verbatim>\<open>KeyMayMatch\<close>; \<open>bytes\<close> is the size of the bit array, the filter
  without its trailing byte.
\<close>

fun test_probes :: "nat \<Rightarrow> size_t \<Rightarrow> nat \<Rightarrow> uint32_t \<Rightarrow> uint32_t \<Rightarrow> byte list
    \<Rightarrow> error + bool" where
  "test_probes 0 bits bytes delta h array = Inr True"
| "test_probes (Suc j) bits bytes delta h array =
     (if bits = 0 then Inl DivisionByZero
      else
        let bitpos :: uint32_t = ucast (ucast h mod bits) in
        if bytes \<le> unat (bitpos div 8) then Inl OutOfBounds
        else if array ! unat (bitpos div 8) AND push_bit (unat (bitpos mod 8)) 1 = 0
          then Inr False
        else test_probes j bits bytes delta (h + delta) array)"

definition KeyMayMatch :: "hash_fn \<Rightarrow> BloomFilterPolicy \<Rightarrow> Slice \<Rightarrow> Slice \<Rightarrow> error + bool" where
  "KeyMayMatch Hash this key bloom_filter =
     (let len :: size_t = of_nat (length bloom_filter) in
      if len < 2 then Inr False
      else
        let array = bloom_filter;
            bits = (len - 1) * 8;
            k :: size_t = scast (array ! unat (len - 1))
        in if 30 < k then Inr True
           else
             let h = BloomHash Hash key;
                 delta = drop_bit 17 h OR push_bit 15 h
             in test_probes (unat k) bits (unat (len - 1)) delta h array)"

subsection \<open>Notions used in the proofs\<close>

text \<open>
  The bit position of one probe as a natural number, the positions probed in \<open>j\<close>
  rounds, the positions probed for a key, the set of bits that are 1 in a byte array
  (bit \<open>p\<close> is bit \<open>p mod 8\<close> of byte \<open>p div 8\<close>), and the number of bytes of the bit
  array that \<open>CreateFilter\<close> computes for \<open>n\<close> keys.
\<close>

definition bitpos_of :: "size_t \<Rightarrow> uint32_t \<Rightarrow> nat" where
  "bitpos_of bits h = unat h mod unat bits"

fun probe_set :: "nat \<Rightarrow> size_t \<Rightarrow> uint32_t \<Rightarrow> uint32_t \<Rightarrow> nat set" where
  "probe_set 0 bits delta h = {}"
| "probe_set (Suc j) bits delta h = insert (bitpos_of bits h) (probe_set j bits delta (h + delta))"

definition key_probes :: "hash_fn \<Rightarrow> size_t \<Rightarrow> size_t \<Rightarrow> Slice \<Rightarrow> nat set" where
  "key_probes Hash k bits key =
     (let h = BloomHash Hash key; delta = drop_bit 17 h OR push_bit 15 h
      in probe_set (unat k) bits delta h)"

definition set_bits :: "byte list \<Rightarrow> nat set" where
  "set_bits array = {p. p div 8 < length array \<and> bit (array ! (p div 8)) (p mod 8)}"

definition filter_bytes :: "BloomFilterPolicy \<Rightarrow> nat \<Rightarrow> size_t" where
  "filter_bytes this n =
     (let bits :: size_t = of_nat n * bits_per_key_m this;
          bits = (if bits < 64 then 64 else bits)
      in (bits + 7) div 8)"

subsection \<open>Instances used to evaluate the functions\<close>

text \<open>
  Where a concrete run is evaluated, the hash parameter is instantiated with the
  function below and the out-of-range conversion with one of the two that follow.  Any
  other function of the same type would do: no theorem depends on the choice.
\<close>

definition Hash_sample :: hash_fn where
  "Hash_sample data seed = fold (\<lambda>b h. h * 31 + ucast b) data seed"

text \<open>
  The conversion of an out-of-range double on x86-64 (\<^verbatim>\<open>cvttsd2si\<close>): the truncated
  value modulo \<open>2 ^ 64\<close>.
\<close>

definition cvt_wrap :: "int \<Rightarrow> size_t" where
  "cvt_wrap t = word_of_int t"

definition cvt_zero :: "int \<Rightarrow> size_t" where
  "cvt_zero t = 0"

section \<open>The probe count\<close>

subsection \<open>The clamp\<close>

lemma k_clamped:
  "1 \<le> k_m (NewBloomFilterPolicy cvt bits_per_key)
   \<and> k_m (NewBloomFilterPolicy cvt bits_per_key) \<le> 30"
  by (simp add: NewBloomFilterPolicy_def Let_def word_le_nat_alt word_less_nat_alt)

subsection \<open>Rounding to binary64\<close>

lemma floorlog_2_eqI:
  assumes "2 ^ L \<le> N" "N < 2 ^ Suc L"
  shows "floorlog 2 N = Suc L"
proof -
  have "Suc L \<le> floorlog 2 N" using assms(1) by (intro floorlog_ge_SucI) simp_all
  moreover have "floorlog 2 N \<le> Suc L" using assms(2) by (intro floorlog_leI) simp_all
  ultimately show ?thesis by simp
qed

text \<open>The rounded number differs from the exact one by at most one unit in the last place.\<close>

lemma round_binary64_bounds:
  "N - N div 2 ^ 52 \<le> round_binary64 N \<and> round_binary64 N \<le> N + N div 2 ^ 52"
proof (cases "floorlog 2 N \<le> 53")
  case True
  then show ?thesis by (simp add: round_binary64_def)
next
  case False
  define s where "s = floorlog 2 N - 53"
  define q where "q = N div 2 ^ s"
  define r where "r = N mod 2 ^ s"
  define q' where "q' = (if 2 ^ (s - 1) < r then q + 1
            else if r = 2 ^ (s - 1) then (if even q then q else q + 1) else q)"
  have R: "round_binary64 N = q' * 2 ^ s"
    using False by (simp add: round_binary64_def Let_def s_def q_def r_def q'_def)
  from False have pos: "0 < N" by (cases "N = 0") (simp_all add: floorlog_def)
  have "floorlog 2 N - 1 = s + 52" using False by (simp add: s_def)
  with floorlog_bounds[of N 2] pos have "(2::nat) ^ (s + 52) \<le> N" by simp
  then have "(2::nat) ^ s * 2 ^ 52 \<le> N" by (simp add: power_add)
  then have e: "2 ^ s \<le> N div 2 ^ 52" by (simp add: less_eq_div_iff_mult_less_eq)
  have N: "N = q * 2 ^ s + r" unfolding q_def r_def by (rule div_mult_mod_eq[symmetric])
  have r: "r < 2 ^ s" by (simp add: r_def)
  have "q' = q \<or> q' = q + 1" by (simp add: q'_def)
  then have "round_binary64 N = q * 2 ^ s \<or> round_binary64 N = q * 2 ^ s + 2 ^ s"
    using R by auto
  with N r e show ?thesis by linarith
qed

subsection \<open>The truncated product\<close>

text \<open>The double \<^verbatim>\<open>0.69\<close> lies \<open>48 / (100 * 2 ^ 53)\<close> below the decimal 0.69.\<close>

lemma hundred_M: "100 * double_0_69 + 48 = 69 * 2 ^ 53"
  by (simp add: double_0_69_def)

lemma r_nonzero:
  assumes "0 < b" "b < 100"
  shows "69 * b mod 100 \<noteq> (0::nat)"
proof
  assume "69 * b mod 100 = 0"
  then have "100 dvd 69 * b" by (simp add: dvd_eq_mod_eq_0)
  then have "100 dvd 29 * (69 * b)" by (rule dvd_mult)
  moreover have "29 * (69 * b) = 100 * (20 * b) + b" by simp
  ultimately have "100 dvd 100 * (20 * b) + b" by simp
  then have "100 dvd b" by (simp only: dvd_add_right_iff dvd_triv_left)
  with assms(1) have "100 \<le> b" by (intro dvd_imp_le) simp_all
  with assms(2) show False by simp
qed

lemma trunc_exact:
  assumes "b \<le> 43"
  shows "round_binary64 (b * double_0_69) div 2 ^ 53 = 69 * b div 100"
proof (cases "b = 0")
  case True
  then show ?thesis by (simp add: round_binary64_def floorlog_def)
next
  case False
  define N where "N = b * double_0_69"
  define R where "R = round_binary64 N"
  define q where "q = 69 * b div 100"
  define r where "r = 69 * b mod 100"
  have r: "0 < r" "r < 100" using False assms r_nonzero[of b] by (simp_all add: r_def)
  have qr: "69 * b = 100 * q + r" by (simp add: q_def r_def)
  have "100 * N + 48 * b = b * (100 * double_0_69 + 48)" by (simp add: N_def algebra_simps)
  also have "\<dots> = 69 * b * 2 ^ 53" by (simp only: hundred_M)
  also have "\<dots> = (100 * q + r) * 2 ^ 53" by (simp only: qr)
  finally have N: "100 * N + 48 * b = 100 * q * 9007199254740992 + r * 9007199254740992"
    by (simp add: algebra_simps)
  have "N < 44 * 2 ^ 53" using assms by (simp add: N_def double_0_69_def)
  then have "N div 2 ^ 52 \<le> 88" by simp
  with round_binary64_bounds[of N] have B: "N \<le> R + 88" "R \<le> N + 88"
    unfolding R_def by linarith+
  have "2 ^ 53 * q \<le> R" using N B r assms by simp
  moreover have "R < 2 ^ 53 * Suc q" using N B r assms by simp
  ultimately have "R div 2 ^ 53 = q" by (rule div_nat_eqI)
  then show ?thesis by (simp add: R_def N_def q_def)
qed

lemma trunc_large:
  assumes "44 \<le> b" "b < 2 ^ 31"
  shows "30 \<le> round_binary64 (b * double_0_69) div 2 ^ 53"
    and "round_binary64 (b * double_0_69) div 2 ^ 53 < 2 ^ 64"
proof -
  define N where "N = b * double_0_69"
  define R where "R = round_binary64 N"
  have lo: "44 * double_0_69 \<le> N" using assms(1) by (simp add: N_def)
  have "N < 2 ^ 31 * 2 ^ 53" unfolding N_def
    using assms(2) by (intro mult_strict_mono) (simp_all add: double_0_69_def)
  then have hi: "N < 2 ^ 84" by simp
  then have "N div 2 ^ 52 < 2 ^ 32" by (simp add: less_mult_imp_div_less)
  with round_binary64_bounds[of N] have B: "N \<le> R + 2 ^ 32" "R \<le> N + 2 ^ 32"
    unfolding R_def by linarith+
  have "30 * 2 ^ 53 \<le> R" using lo B by (simp add: double_0_69_def)
  then show "30 \<le> round_binary64 (b * double_0_69) div 2 ^ 53"
    by (simp add: R_def N_def less_eq_div_iff_mult_less_eq)
  have "R < 2 ^ 64 * 2 ^ 53" using hi B by simp
  then show "round_binary64 (b * double_0_69) div 2 ^ 53 < 2 ^ 64"
    by (simp add: R_def N_def less_mult_imp_div_less)
qed

subsection \<open>The conversion to \<^verbatim>\<open>size_t\<close>\<close>

lemma cast_nonneg:
  assumes "0 \<le> b" and "round_binary64 (nat b * double_0_69) div 2 ^ 53 < 2 ^ 64"
  shows "double_to_size_t cvt (mul_0_69 b)
    = of_nat (round_binary64 (nat b * double_0_69) div 2 ^ 53)"
proof -
  define R where "R = round_binary64 (nat b * double_0_69)"
  have R0: "b = 0 \<Longrightarrow> R = 0" by (simp add: R_def round_binary64_def floorlog_def)
  have "mul_0_69 b = int R"
    using assms(1) R0 by (cases "b = 0") (simp_all add: mul_0_69_def R_def)
  moreover have "sgn (int R) * (\<bar>int R\<bar> div 2 ^ 53) = int (R div 2 ^ 53)"
    by (cases "R = 0") (simp_all add: zdiv_int)
  moreover have "int (R div 2 ^ 53) < 2 ^ 64"
  proof -
    have "int (R div 2 ^ 53) < int (2 ^ 64)"
      using assms(2) unfolding R_def by (simp only: of_nat_less_iff)
    then show ?thesis by simp
  qed
  ultimately show ?thesis
    by (simp add: double_to_size_t_def Let_def R_def)
qed

lemma cast_minus_1: "double_to_size_t cvt (mul_0_69 (- 1)) = 0"
proof -
  have "floorlog 2 double_0_69 = Suc 52"
    by (rule floorlog_2_eqI) (simp_all add: double_0_69_def)
  then have "round_binary64 double_0_69 = double_0_69"
    by (simp add: round_binary64_def)
  then have "mul_0_69 (- 1) = - int double_0_69" by (simp add: mul_0_69_def)
  then show ?thesis by (simp add: double_to_size_t_def double_0_69_def)
qed

text \<open>
  From \<open>- 1\<close> upwards the probe count is the floor of the decimal product, clamped.
\<close>

lemma probe_count_formula:
  assumes "- 1 \<le> sint bits_per_key"
  shows "uint (k_m (NewBloomFilterPolicy cvt bits_per_key))
    = max 1 (min 30 (69 * sint bits_per_key div 100))"
proof -
  define b where "b = sint bits_per_key"
  define T where "T = round_binary64 (nat b * double_0_69) div 2 ^ 53"
  have b31: "b < 2 ^ 31" using sint_lt[of bits_per_key] by (simp add: b_def)
  consider "b = - 1" | "0 \<le> b" "b \<le> 43" | "44 \<le> b"
    using assms by (fold b_def) linarith
  then have "uint (let k = double_to_size_t cvt (mul_0_69 b);
          k = (if k < 1 then 1 else k);
          k = (if 30 < k then 30 else k) in k) = max 1 (min 30 (69 * b div 100))"
  proof cases
    case 1
    then show ?thesis by (simp add: cast_minus_1)
  next
    case 2
    then have "nat b \<le> 43" by simp
    then have T: "T = 69 * nat b div 100" unfolding T_def by (rule trunc_exact)
    with 2 have T29: "T \<le> 29" by simp
    then have "T < 2 ^ 64" by simp
    then have c: "double_to_size_t cvt (mul_0_69 b) = of_nat T"
      unfolding T_def using 2(1) by (intro cast_nonneg)
    have u: "unat (of_nat T :: size_t) = T" using T29 by (simp add: unat_of_nat)
    have "uint (of_nat T :: size_t) = int (unat (of_nat T :: size_t))" by (rule uint_nat)
    with u have ui: "uint (of_nat T :: size_t) = int T" by (simp only:)
    have "int T = 69 * b div 100" using T 2(1) by (simp add: zdiv_int)
    with u ui T29 show ?thesis
      by (simp add: c Let_def word_less_nat_alt)
  next
    case 3
    then have n: "44 \<le> nat b" "nat b < 2 ^ 31" using b31 by simp_all
    have T30: "30 \<le> T" and T64: "T < 2 ^ 64"
      unfolding T_def using n by (rule trunc_large)+
    have c: "double_to_size_t cvt (mul_0_69 b) = of_nat T"
      unfolding T_def using 3 T64[unfolded T_def] by (intro cast_nonneg) simp_all
    have u: "unat (of_nat T :: size_t) = T" using T64 by (simp add: unat_of_nat)
    have "30 \<le> 69 * b div 100" using 3 by simp
    with u T30 show ?thesis
      by (simp add: c Let_def word_less_nat_alt)
  qed
  then show ?thesis by (simp add: NewBloomFilterPolicy_def Let_def b_def)
qed

text \<open>
  Below \<open>- 1\<close> the truncated product is negative and the result is the platform's:
  30 where the conversion wraps, 1 where it gives zero.
\<close>

lemma mul_0_69_minus_2: "mul_0_69 (- 2) = - int (2 * double_0_69)"
proof -
  have "floorlog 2 (2 * double_0_69) = Suc 53"
    by (rule floorlog_2_eqI) (simp_all add: double_0_69_def)
  then have "round_binary64 (2 * double_0_69) = 2 * double_0_69"
    by (simp add: round_binary64_def double_0_69_def)
  then show ?thesis by (simp add: mul_0_69_def)
qed

lemma k_of_minus_2_wrap: "k_m (NewBloomFilterPolicy cvt_wrap (- 2)) = 30"
  by (simp add: NewBloomFilterPolicy_def mul_0_69_minus_2 double_to_size_t_def
      double_0_69_def cvt_wrap_def)

lemma k_of_minus_2_zero: "k_m (NewBloomFilterPolicy cvt_zero (- 2)) = 1"
  by (simp add: NewBloomFilterPolicy_def mul_0_69_minus_2 double_to_size_t_def
      double_0_69_def cvt_zero_def)

subsection \<open>The logarithm of two\<close>

lemma exp_9_13: "exp (9 / 13 :: real) < 2"
proof -
  obtain t :: real where t: "\<bar>t\<bar> \<le> \<bar>9 / 13\<bar>"
    and e: "exp (9 / 13) = (\<Sum>m<7. (9 / 13) ^ m / fact m) + exp t / fact 7 * (9 / 13) ^ 7"
    using Maclaurin_exp_le [of "9 / 13" 7] by blast
  from t have "t \<le> 1" by simp
  then have "exp t \<le> exp 1" by simp
  also have "\<dots> \<le> 3" by (rule exp_le)
  finally have "exp t / fact 7 * (9 / 13) ^ 7 \<le> 3 / fact 7 * (9 / 13) ^ 7"
    by (intro mult_right_mono divide_right_mono) simp_all
  moreover have "(\<Sum>m<7. (9 / 13 :: real) ^ m / fact m) + 3 / fact 7 * (9 / 13) ^ 7 < 2"
    by (simp add: eval_nat_numeral lessThan_Suc fact_numeral)
  ultimately show ?thesis using e by linarith
qed

lemma ln_2_lower: "9 / 13 < ln (2 :: real)"
proof -
  have "exp (9 / 13 :: real) < exp (ln 2)" using exp_9_13 by simp
  then show ?thesis by (simp only: exp_less_cancel_iff)
qed

lemma ln_2_upper: "ln (2 :: real) < 10 / 13"
proof -
  have "1 + (10 / 13) + (10 / 13)\<^sup>2 / 2 \<le> exp (10 / 13 :: real)"
    by (rule exp_lower_Taylor_quadratic) simp
  moreover have "(2 :: real) < 1 + (10 / 13) + (10 / 13)\<^sup>2 / 2"
    by (simp add: power2_eq_square)
  ultimately have "exp (ln 2) < exp (10 / 13 :: real)" by simp
  then show ?thesis by (simp only: exp_less_cancel_iff)
qed

lemma floor_13_ln_2: "\<lfloor>13 * ln (2 :: real)\<rfloor> = 9"
proof -
  have "9 \<le> 13 * ln (2 :: real)" using ln_2_lower by simp
  moreover have "13 * ln (2 :: real) < 9 + 1" using ln_2_upper by simp
  ultimately show ?thesis by (intro floor_unique) simp_all
qed

subsection \<open>The claims on the probe count\<close>

text \<open>
  Claim C4 (probe-count invariant): for every \<open>bits_per_key\<close>, zero, negative and very
  large ones included, and whatever the platform makes of an out-of-range conversion,
  the stored \<open>k\<close> satisfies \<open>1 \<le> k \<le> 30\<close>; \<open>bits_per_key = 0\<close> gives \<open>k = 1\<close> and
  \<open>bits_per_key = 1000\<close> gives \<open>k = 30\<close>.
\<close>

theorem probe_count_invariant:
  "1 \<le> k_m (NewBloomFilterPolicy cvt bits_per_key)
   \<and> k_m (NewBloomFilterPolicy cvt bits_per_key) \<le> 30
   \<and> uint (k_m (NewBloomFilterPolicy cvt 0)) = 1
   \<and> uint (k_m (NewBloomFilterPolicy cvt 1000)) = 30"
  using k_clamped[of cvt bits_per_key]
    probe_count_formula[of 0 cvt] probe_count_formula[of 1000 cvt]
  by simp

text \<open>
  Claim C3 as stated, with the natural logarithm: \<open>k\<close> is the floor of
  \<open>bits_per_key * ln 2\<close> clamped to 1..30.  The code multiplies by 0.69; at
  \<open>bits_per_key = 13\<close> the product is 8.97 and \<open>k = 8\<close>, while \<open>13 * ln 2\<close> is just
  above 9.
\<close>

theorem probe_count_ln_2_counterexample:
  "uint (k_m (NewBloomFilterPolicy cvt_wrap 13)) \<noteq> max 1 (min 30 \<lfloor>13 * ln (2 :: real)\<rfloor>)"
  using probe_count_formula[of 13 cvt_wrap] by (simp add: floor_13_ln_2)

text \<open>
  Claim C3, amended: for every \<open>bits_per_key\<close> from \<open>- 1\<close> upwards, the \<open>k\<close> computed
  at construction equals the floor of \<open>bits_per_key * 0.69\<close> clamped to the inclusive
  range 1..30.
\<close>

theorem probe_count_derivation:
  assumes "- 1 \<le> sint bits_per_key"
  shows "uint (k_m (NewBloomFilterPolicy cvt bits_per_key))
    = max 1 (min 30 (69 * sint bits_per_key div 100))"
  using assms by (rule probe_count_formula)

theorem probe_count_derivation_witness:
  "- 1 \<le> sint (13 :: 32 word) \<and> uint (k_m (NewBloomFilterPolicy cvt_wrap 13)) = 8"
  using probe_count_derivation[of 13 cvt_wrap] by simp

section \<open>Reading a filter\<close>

subsection \<open>The trailing byte as a probe count\<close>

text \<open>
  \<^verbatim>\<open>const size_t k = array[len-1]\<close> converts a signed \<^verbatim>\<open>char\<close> to \<^verbatim>\<open>size_t\<close>: a byte
  of 128 or more becomes a number just below \<open>2 ^ 64\<close>.  The comparison with 30 and
  the number of rounds are the same as for an unsigned byte.
\<close>

lemma neg_mod_int: "- m \<le> (x::int) \<Longrightarrow> x < 0 \<Longrightarrow> x mod m = x + m"
proof -
  assume a: "- m \<le> x" "x < 0"
  have "x mod m = (x + m) mod m" by simp
  also have "\<dots> = x + m" using a by (intro mod_pos_pos_trivial) auto
  finally show ?thesis .
qed

lemma uint_scast_byte:
  fixes b :: byte
  shows "uint (scast b :: size_t) = (if uint b < 128 then uint b else uint b + (2 ^ 64 - 256))"
proof -
  have r: "- 128 \<le> sint b" "sint b < 128"
    using sint_ge[of b] sint_lt[of b] by simp_all
  have u: "uint b = sint b mod 256"
    using uint_sint[of b] by (simp add: take_bit_eq_mod)
  have "uint (word_of_int (sint b) :: size_t) = sint b mod 2 ^ LENGTH(64)"
    by (rule uint_word_of_int)
  then have s: "uint (scast b :: size_t) = sint b mod 2 ^ 64"
    by (simp only: scast_eq len_bit0 len_num1 mult_2 one_add_one numeral_Bit0[symmetric])
  show ?thesis
  proof (cases "0 \<le> sint b")
    case True
    with r u s show ?thesis by simp
  next
    case False
    with r have "sint b mod 256 = sint b + 256" "sint b mod 2 ^ 64 = sint b + 2 ^ 64"
      by (simp_all add: neg_mod_int)
    with r u s False show ?thesis by simp
  qed
qed

lemma scast_byte_gt_30:
  fixes b :: byte
  shows "(30 < (scast b :: size_t)) = (30 < b)"
  using uint_scast_byte[of b] uint_lt2p[of b]
  by (simp add: word_less_def split: if_splits)

lemma scast_byte_le_30:
  fixes b :: byte
  shows "\<not> 30 < b \<Longrightarrow> unat (scast b :: size_t) = unat b"
proof -
  assume "\<not> 30 < b"
  then have "uint b < 128" using uint_lt2p[of b] by (simp add: word_less_def)
  then have "uint (scast b :: size_t) = uint b" using uint_scast_byte[of b] by simp
  then have "nat (uint (scast b :: size_t)) = nat (uint b)" by (rule arg_cong)
  then show ?thesis by simp
qed

subsection \<open>The size of a slice\<close>

text \<open>
  \<^verbatim>\<open>size()\<close> is a \<^verbatim>\<open>size_t\<close>, so a slice has fewer than \<open>2 ^ 64\<close> bytes; for such a
  list the size as a word is its length.
\<close>

lemma size_as_word:
  assumes "length (xs :: byte list) < 2 ^ 64"
  shows "unat (of_nat (length xs) :: size_t) = length xs"
  using assms by (simp add: unat_of_nat)

lemma size_minus_1:
  assumes "2 \<le> length (xs :: byte list)" "length xs < 2 ^ 64"
  shows "\<not> (of_nat (length xs) :: size_t) < 2"
    and "unat ((of_nat (length xs) :: size_t) - 1) = length xs - 1"
proof -
  have u: "unat (of_nat (length xs) :: size_t) = length xs"
    using assms(2) by (rule size_as_word)
  show "\<not> (of_nat (length xs) :: size_t) < 2"
    using assms(1) u by (simp add: word_less_nat_alt)
  have "1 \<le> (of_nat (length xs) :: size_t)"
    using assms(1) u by (simp add: word_le_nat_alt)
  then have "unat ((of_nat (length xs) :: size_t) - 1)
      = unat (of_nat (length xs) :: size_t) - unat (1 :: size_t)"
    by (rule unat_sub)
  with u show "unat ((of_nat (length xs) :: size_t) - 1) = length xs - 1" by simp
qed

lemma trailing_byte:
  assumes "2 \<le> length (xs :: byte list)" "length xs < 2 ^ 64"
  shows "xs ! unat ((of_nat (length xs) :: size_t) - 1) = last xs"
proof -
  from assms have "xs \<noteq> []" by auto
  then show ?thesis using size_minus_1(2)[OF assms] by (simp add: last_conv_nth)
qed

section \<open>Early returns of KeyMayMatch\<close>

text \<open>
  Claim C6 (malformed filter): for every query key, \<open>KeyMayMatch\<close> applied to an
  encoded filter of length 0 or 1 returns false.
\<close>

theorem KeyMayMatch_short_filter:
  assumes "length bloom_filter < 2"
  shows "KeyMayMatch Hash this key bloom_filter = Inr False"
proof -
  from assms have "length bloom_filter = 0 \<or> length bloom_filter = 1" by arith
  then show ?thesis by (auto simp add: KeyMayMatch_def)
qed

theorem KeyMayMatch_short_filter_witness:
  "length [31 :: byte] < 2
    \<and> KeyMayMatch Hash_sample \<lparr>bits_per_key_m = 10, k_m = 6\<rparr> [1, 2] [31] = Inr False"
  using KeyMayMatch_short_filter
    [of "[31]" Hash_sample "\<lparr>bits_per_key_m = 10, k_m = 6\<rparr>" "[1, 2]"]
  by simp

text \<open>
  Claim C7 (reserved encoding): for every query key and every encoded filter of length
  at least 2 whose trailing byte is 31 or higher as an unsigned byte, \<open>KeyMayMatch\<close>
  returns true.  It does so for every hash function and before the hash is computed: no
  bit of the array is read.
\<close>

theorem KeyMayMatch_reserved_encoding:
  assumes "2 \<le> length bloom_filter" and "length bloom_filter < 2 ^ 64"
    and "31 \<le> unat (last bloom_filter)"
  shows "KeyMayMatch Hash this key bloom_filter = Inr True"
proof -
  from assms(3) have "30 < last bloom_filter" by (simp add: word_less_nat_alt)
  then have "30 < (scast (last bloom_filter) :: size_t)" by (simp add: scast_byte_gt_30)
  then show ?thesis
    using size_minus_1(1)[OF assms(1,2)] trailing_byte[OF assms(1,2)]
    by (simp add: KeyMayMatch_def Let_def)
qed

theorem KeyMayMatch_reserved_encoding_witness:
  "2 \<le> length [0, 31 :: byte] \<and> length [0, 31 :: byte] < 2 ^ 64
    \<and> 31 \<le> unat (last [0, 31 :: byte])
    \<and> KeyMayMatch Hash_sample \<lparr>bits_per_key_m = 10, k_m = 6\<rparr> [1, 2] [0, 31] = Inr True"
  using KeyMayMatch_reserved_encoding
    [of "[0, 31]" Hash_sample "\<lparr>bits_per_key_m = 10, k_m = 6\<rparr>" "[1, 2]"]
  by simp

text \<open>
  Claim C10 (zero probe count): for every query key and every encoded filter of length at
  least 2 whose trailing byte is 0, \<open>KeyMayMatch\<close> returns true: the probe loop runs
  no round.
\<close>

theorem KeyMayMatch_zero_probes:
  assumes "2 \<le> length bloom_filter" and "length bloom_filter < 2 ^ 64"
    and "last bloom_filter = 0"
  shows "KeyMayMatch Hash this key bloom_filter = Inr True"
  using size_minus_1(1)[OF assms(1,2)] trailing_byte[OF assms(1,2)] assms(3)
  by (simp add: KeyMayMatch_def Let_def)

theorem KeyMayMatch_zero_probes_witness:
  "2 \<le> length [0, 0 :: byte] \<and> length [0, 0 :: byte] < 2 ^ 64 \<and> last [0, 0 :: byte] = 0
    \<and> KeyMayMatch Hash_sample \<lparr>bits_per_key_m = 10, k_m = 6\<rparr> [1, 2] [0, 0] = Inr True"
  using KeyMayMatch_zero_probes
    [of "[0, 0]" Hash_sample "\<lparr>bits_per_key_m = 10, k_m = 6\<rparr>" "[1, 2]"]
  by simp

text \<open>
  Claim C8 (configuration independence): for every query key and every encoded filter,
  \<open>KeyMayMatch\<close> gives the same result under any two policy objects; the probe count
  comes from the trailing byte of the filter, never from the members of \<open>this\<close>.
\<close>

theorem KeyMayMatch_configuration_independent:
  "KeyMayMatch Hash this key bloom_filter = KeyMayMatch Hash that key bloom_filter"
  by (simp add: KeyMayMatch_def)

section \<open>The bit array\<close>

subsection \<open>Bit positions\<close>

text \<open>
  \<^verbatim>\<open>h % bits\<close> is computed in \<^verbatim>\<open>size_t\<close> and stored in a \<^verbatim>\<open>uint32_t\<close>; nothing is lost,
  since the remainder is at most \<open>h\<close>.
\<close>

lemma bitpos_word:
  assumes "bits \<noteq> 0"
  shows "unat (ucast ((ucast (h :: uint32_t) :: size_t) mod bits) :: uint32_t) = bitpos_of bits h"
proof -
  have h32: "unat h < 2 ^ 32" using unsigned_less[of h, where 'a = nat] by simp
  have "unat (ucast h :: size_t) = take_bit 64 (unat h)"
    by (simp add: unsigned_ucast_eq)
  also have "\<dots> = unat h" using h32 by (intro take_bit_nat_eq_self) simp
  finally have u: "unat (ucast h :: size_t) = unat h" .
  have m: "unat ((ucast h :: size_t) mod bits) = unat h mod unat bits"
    by (simp add: unat_mod u)
  have "unat h mod unat bits \<le> unat h" by simp
  with h32 have lt: "unat h mod unat bits < 2 ^ 32" by linarith
  have "unat (ucast ((ucast h :: size_t) mod bits) :: uint32_t)
      = take_bit 32 (unat ((ucast h :: size_t) mod bits))"
    by (simp add: unsigned_ucast_eq)
  also have "\<dots> = unat h mod unat bits"
    unfolding m using lt by (rule take_bit_nat_eq_self)
  finally show ?thesis by (simp add: bitpos_of_def)
qed

lemma bitpos_less: "bits \<noteq> 0 \<Longrightarrow> bitpos_of bits h < unat bits"
  by (simp add: bitpos_of_def unat_gt_0)

subsection \<open>Arrays as sets of bits\<close>

lemma bit_one_byte: "m < 8 \<Longrightarrow> bit ((2 :: byte) ^ n) m = (m = n)"
  by (auto simp add: bit_exp_iff)

lemma pos_split: "n < 8 \<Longrightarrow> (p = 8 * i + n) = (p div 8 = i \<and> p mod 8 = (n::nat))"
  by auto

lemma set_bits_update:
  assumes "i < length array" "n < 8"
  shows "set_bits (array[i := array ! i OR push_bit n 1]) = insert (8 * i + n) (set_bits array)"
proof (rule set_eqI)
  fix p :: nat
  have m: "p mod 8 < 8" by simp
  show "p \<in> set_bits (array[i := array ! i OR push_bit n 1])
      \<longleftrightarrow> p \<in> insert (8 * i + n) (set_bits array)"
  proof (cases "p div 8 = i")
    case True
    then show ?thesis
      using assms m by (auto simp add: set_bits_def bit_or_iff bit_one_byte pos_split)
  next
    case False
    then show ?thesis
      using assms by (auto simp add: set_bits_def pos_split)
  qed
qed

lemma array_eqI:
  assumes "length a = length b" "set_bits a = set_bits b"
  shows "a = (b :: byte list)"
proof (rule nth_equalityI)
  show "length a = length b" by fact
next
  fix i assume i: "i < length a"
  show "a ! i = b ! i"
  proof (rule bit_word_eqI)
    fix n assume "n < LENGTH(8)"
    then have n: "n < 8" by simp
    then have d: "(8 * i + n) div 8 = i" "(8 * i + n) mod 8 = n" by simp_all
    have "bit (a ! i) n \<longleftrightarrow> 8 * i + n \<in> set_bits a"
      using i d by (simp add: set_bits_def)
    also have "\<dots> \<longleftrightarrow> 8 * i + n \<in> set_bits b" by (simp only: assms(2))
    also have "\<dots> \<longleftrightarrow> bit (b ! i) n"
      using i d assms(1) by (simp add: set_bits_def)
    finally show "bit (a ! i) n = bit (b ! i) n" .
  qed
qed

subsection \<open>The probe loops\<close>

lemma set_probes_Suc:
  assumes "bits \<noteq> 0"
  shows "set_probes (Suc j) bits bytes delta h array =
     (let p = bitpos_of bits h in
      if bytes \<le> p div 8 then Inl OutOfBounds
      else set_probes j bits bytes delta (h + delta)
             (array[p div 8 := array ! (p div 8) OR push_bit (p mod 8) 1]))"
  using assms bitpos_word[OF assms, of h]
  by (simp add: Let_def unat_div unat_mod)

lemma test_probes_Suc:
  assumes "bits \<noteq> 0"
  shows "test_probes (Suc j) bits bytes delta h array =
     (let p = bitpos_of bits h in
      if bytes \<le> p div 8 then Inl OutOfBounds
      else if \<not> bit (array ! (p div 8)) (p mod 8) then Inr False
      else test_probes j bits bytes delta (h + delta) array)"
  using assms bitpos_word[OF assms, of h]
  by (simp add: Let_def unat_div unat_mod and_exp_eq_0_iff_not_bit)

lemma set_probes_ok:
  assumes "bits \<noteq> 0" "unat bits \<le> 8 * bytes" "bytes \<le> length array"
  shows "\<exists>array'. set_probes j bits bytes delta h array = Inr array'
      \<and> length array' = length array
      \<and> set_bits array' = set_bits array \<union> probe_set j bits delta h
      \<and> (\<forall>i\<ge>bytes. array' ! i = array ! i)"
  using assms(3)
proof (induction j arbitrary: h array)
  case 0
  then show ?case by simp
next
  case (Suc j)
  define p where "p = bitpos_of bits h"
  define a1 where "a1 = array[p div 8 := array ! (p div 8) OR push_bit (p mod 8) 1]"
  have "p < unat bits" unfolding p_def using assms(1) by (rule bitpos_less)
  with assms(2) have i: "p div 8 < bytes" by simp
  with Suc.prems have il: "p div 8 < length array" by simp
  have len: "length a1 = length array" by (simp add: a1_def)
  have "set_bits a1 = insert (8 * (p div 8) + p mod 8) (set_bits array)"
    unfolding a1_def using il by (intro set_bits_update) simp_all
  then have sb: "set_bits a1 = insert p (set_bits array)" by simp
  have same: "\<forall>i\<ge>bytes. a1 ! i = array ! i" using i by (simp add: a1_def)
  from Suc.prems len have "bytes \<le> length a1" by simp
  from Suc.IH[OF this, of "h + delta"] obtain array' where
    r: "set_probes j bits bytes delta (h + delta) a1 = Inr array'"
      "length array' = length a1"
      "set_bits array' = set_bits a1 \<union> probe_set j bits delta (h + delta)"
      "\<forall>i\<ge>bytes. array' ! i = a1 ! i"
    by blast
  have "set_probes (Suc j) bits bytes delta h array = Inr array'"
    using i r(1) unfolding p_def a1_def
    by (simp add: set_probes_Suc[OF assms(1)] Let_def del: set_probes.simps(2))
  moreover have "set_bits array' = set_bits array \<union> probe_set (Suc j) bits delta h"
    using r(3) sb by (simp add: p_def)
  ultimately show ?case using r(2,4) len same by simp
qed

lemma add_keys_ok:
  assumes "bits \<noteq> 0" "unat bits \<le> 8 * bytes" "bytes \<le> length array"
  shows "\<exists>array'. add_keys Hash k bits bytes keys array = Inr array'
      \<and> length array' = length array
      \<and> set_bits array' = set_bits array \<union> (\<Union>key\<in>set keys. key_probes Hash k bits key)
      \<and> (\<forall>i\<ge>bytes. array' ! i = array ! i)"
  using assms(3)
proof (induction keys arbitrary: array)
  case Nil
  then show ?case by simp
next
  case (Cons key keys)
  define h where "h = BloomHash Hash key"
  define delta where "delta = drop_bit 17 h OR push_bit 15 h"
  from set_probes_ok[OF assms(1,2) Cons.prems, of "unat k" delta h] obtain a1 where
    s: "set_probes (unat k) bits bytes delta h array = Inr a1"
      "length a1 = length array"
      "set_bits a1 = set_bits array \<union> probe_set (unat k) bits delta h"
      "\<forall>i\<ge>bytes. a1 ! i = array ! i"
    by blast
  from Cons.prems s(2) have "bytes \<le> length a1" by simp
  from Cons.IH[OF this] obtain array' where
    r: "add_keys Hash k bits bytes keys a1 = Inr array'"
      "length array' = length a1"
      "set_bits array' = set_bits a1 \<union> (\<Union>key\<in>set keys. key_probes Hash k bits key)"
      "\<forall>i\<ge>bytes. array' ! i = a1 ! i"
    by blast
  have "add_keys Hash k bits bytes (key # keys) array = Inr array'"
    using s(1) r(1) by (simp add: Let_def h_def delta_def)
  moreover have "key_probes Hash k bits key = probe_set (unat k) bits delta h"
    by (simp add: key_probes_def Let_def h_def delta_def)
  ultimately show ?case using s r by auto
qed

lemma add_keys_zero_bits:
  "add_keys Hash k 0 bytes keys array =
     (if keys = [] \<or> k = 0 then Inr array else Inl DivisionByZero)"
proof (induction keys)
  case Nil
  then show ?case by simp
next
  case (Cons key keys)
  show ?case
  proof (cases "k = 0")
    case True
    with Cons show ?thesis by simp
  next
    case False
    then obtain j where "unat k = Suc j" by (cases "unat k") (simp_all add: unat_eq_0)
    then show ?thesis using False by (simp add: Let_def)
  qed
qed

lemma test_probes_ok:
  assumes "bits \<noteq> 0" "unat bits \<le> 8 * bytes" "bytes \<le> length array"
  shows "test_probes j bits bytes delta h array
    = Inr (probe_set j bits delta h \<subseteq> set_bits array)"
proof (induction j arbitrary: h)
  case 0
  then show ?case by simp
next
  case (Suc j)
  define p where "p = bitpos_of bits h"
  have "p < unat bits" unfolding p_def using assms(1) by (rule bitpos_less)
  with assms(2) have i: "p div 8 < bytes" by simp
  with assms(3) have "p div 8 < length array" by simp
  then have "p \<in> set_bits array \<longleftrightarrow> bit (array ! (p div 8)) (p mod 8)"
    by (simp add: set_bits_def)
  then show ?case
    using i Suc.IH[of "h + delta"]
    unfolding p_def
    by (simp add: test_probes_Suc[OF assms(1)] Let_def del: test_probes.simps(2))
qed

subsection \<open>Sizes\<close>

text \<open>
  The byte count is a quotient by 8, so it is below \<open>2 ^ 61\<close> and neither
  \<^verbatim>\<open>bytes * 8\<close> nor the size of the filter wraps around.
\<close>

lemma CreateFilter_unfold:
  "CreateFilter Hash this keys dst =
     (case add_keys Hash (k_m this) (filter_bytes this (length keys) * 8)
             (unat (filter_bytes this (length keys))) keys
             (replicate (unat (filter_bytes this (length keys))) 0 @ [ucast (k_m this)]) of
        Inl e \<Rightarrow> Inl e
      | Inr array' \<Rightarrow> Inr (dst @ array'))"
  by (simp add: CreateFilter_def filter_bytes_def Let_def)

lemma filter_bytes_less: "unat (filter_bytes this n) < 2 ^ 61"
proof -
  have "unat ((y :: size_t) div 8) < 2 ^ 61" for y
    using unsigned_less[of y, where 'a = nat] by (simp add: unat_div)
  then show ?thesis by (simp add: filter_bytes_def Let_def)
qed

lemma unat_times_8:
  assumes "unat (B :: size_t) < 2 ^ 61"
  shows "unat (B * 8) = 8 * unat B"
proof -
  have "unat B * unat (8 :: size_t) < 2 ^ LENGTH(64)" using assms by simp
  then have "unat (B * 8) = unat B * unat (8 :: size_t)" by (simp only: unat_mult_lem)
  then show ?thesis by simp
qed

lemma times_8_nonzero:
  assumes "unat (B :: size_t) < 2 ^ 61" "B \<noteq> 0"
  shows "B * 8 \<noteq> 0"
proof
  assume "B * 8 = 0"
  then have "unat (B * 8) = 0" by simp
  with unat_times_8[OF assms(1)] have "unat B = 0" by simp
  with assms(2) show False by (simp add: unat_eq_0)
qed

lemma unat_plus_1:
  assumes "unat (B :: size_t) < 2 ^ 61"
  shows "unat (B + 1) = unat B + 1"
proof -
  have "unat B + unat (1 :: size_t) < 2 ^ LENGTH(64)" using assms by simp
  then have "unat (B + 1) = unat B + unat (1 :: size_t)" by (simp only: unat_add_lem)
  then show ?thesis by simp
qed

lemma unat_scast_nonneg:
  assumes "0 \<le> sint (b :: 32 word)"
  shows "unat (scast b :: size_t) = nat (sint b)"
proof -
  have lt: "sint b < 2 ^ 31" using sint_lt[of b] by simp
  have "uint (word_of_int (sint b) :: size_t) = sint b mod 2 ^ LENGTH(64)"
    by (rule uint_word_of_int)
  then have "uint (scast b :: size_t) = sint b mod 2 ^ 64"
    by (simp only: scast_eq len_bit0 len_num1 mult_2 one_add_one numeral_Bit0[symmetric])
  also have "\<dots> = sint b" using assms lt by (intro mod_pos_pos_trivial) simp_all
  finally have "nat (uint (scast b :: size_t)) = nat (sint b)" by (rule arg_cong)
  then show ?thesis by simp
qed

lemma filter_bytes_nonneg:
  assumes "0 \<le> sint bits_per_key" "n < 2 ^ 31"
  shows "unat (filter_bytes (NewBloomFilterPolicy cvt bits_per_key) n)
    = (max (n * nat (sint bits_per_key)) 64 + 7) div 8"
proof -
  define m where "m = nat (sint bits_per_key)"
  define x :: size_t where "x = of_nat n * scast bits_per_key"
  define y :: size_t where "y = (if x < 64 then 64 else x)"
  have m31: "m < 2 ^ 31" using sint_lt[of bits_per_key] assms(1) by (simp add: m_def)
  have un: "unat (of_nat n :: size_t) = n" using assms(2) by (simp add: unat_of_nat)
  have um: "unat (scast bits_per_key :: size_t) = m"
    unfolding m_def using assms(1) by (rule unat_scast_nonneg)
  have "n * m \<le> 2 ^ 31 * 2 ^ 31" using assms(2) m31 by (intro mult_mono) simp_all
  then have nm: "n * m < 2 ^ 63" by simp
  then have "unat (of_nat n :: size_t) * unat (scast bits_per_key :: size_t) < 2 ^ LENGTH(64)"
    by (simp add: un um)
  then have "unat x = unat (of_nat n :: size_t) * unat (scast bits_per_key :: size_t)"
    unfolding x_def by (simp only: unat_mult_lem)
  then have ux: "unat x = n * m" by (simp only: un um)
  have uy: "unat y = max (n * m) 64" using ux by (simp add: y_def word_less_nat_alt)
  with nm have "unat y + unat (7 :: size_t) < 2 ^ LENGTH(64)" by simp
  then have "unat (y + 7) = unat y + unat (7 :: size_t)" by (simp only: unat_add_lem)
  then have "unat ((y + 7) div 8) = (max (n * m) 64 + 7) div 8"
    by (simp add: unat_div uy)
  moreover have "filter_bytes (NewBloomFilterPolicy cvt bits_per_key) n = (y + 7) div 8"
    by (simp add: filter_bytes_def NewBloomFilterPolicy_def Let_def x_def y_def)
  ultimately show ?thesis by (simp add: m_def)
qed

lemma filter_bytes_empty: "filter_bytes this 0 = 8"
  by (simp add: filter_bytes_def)

lemma filter_bytes_value:
  assumes "0 \<le> sint bits_per_key \<or> n = 0" "n < 2 ^ 31"
  shows "unat (filter_bytes (NewBloomFilterPolicy cvt bits_per_key) n)
    = (max (n * nat (sint bits_per_key)) 64 + 7) div 8"
proof (cases "n = 0")
  case True
  then show ?thesis by (simp add: filter_bytes_empty)
next
  case False
  with assms(1) have "0 \<le> sint bits_per_key" by simp
  then show ?thesis using assms(2) by (rule filter_bytes_nonneg)
qed

subsection \<open>Building and querying\<close>

lemma build_nonzero:
  assumes "B \<noteq> 0" "unat B < 2 ^ 61"
  shows "\<exists>bitarray. add_keys Hash k (B * 8) (unat B) keys (replicate (unat B) 0 @ [kb])
        = Inr (bitarray @ [kb])
      \<and> length bitarray = unat B
      \<and> set_bits (bitarray @ [kb])
        = set_bits (replicate (unat B) 0 @ [kb])
          \<union> (\<Union>key\<in>set keys. key_probes Hash k (B * 8) key)"
proof -
  define array where "array = replicate (unat B) 0 @ [kb]"
  have nz: "B * 8 \<noteq> 0" using assms(2,1) by (rule times_8_nonzero)
  have u: "unat (B * 8) \<le> 8 * unat B" using unat_times_8[OF assms(2)] by simp
  have l: "unat B \<le> length array" by (simp add: array_def)
  from add_keys_ok[OF nz u l, of Hash k keys] obtain array' where
    r: "add_keys Hash k (B * 8) (unat B) keys array = Inr array'"
      "length array' = length array"
      "set_bits array' = set_bits array \<union> (\<Union>key\<in>set keys. key_probes Hash k (B * 8) key)"
      "\<forall>i\<ge>unat B. array' ! i = array ! i"
    by blast
  have len: "length array' = unat B + 1" using r(2) by (simp add: array_def)
  then have ne: "array' \<noteq> []" by auto
  have "last array' = array' ! unat B" using len ne by (simp add: last_conv_nth)
  also have "\<dots> = array ! unat B" using r(4) by simp
  also have "\<dots> = kb" by (simp add: array_def nth_append)
  finally have "array' = butlast array' @ [kb]" using ne by (metis append_butlast_last_id)
  moreover have "length (butlast array') = unat B" using len by simp
  ultimately show ?thesis using r(1,3) unfolding array_def by metis
qed

lemma KeyMayMatch_built:
  assumes "B \<noteq> 0" "unat B < 2 ^ 61" "length bitarray = unat B" "k \<le> 30"
  shows "KeyMayMatch Hash this key (bitarray @ [ucast (k :: size_t)])
    = Inr (key_probes Hash k (B * 8) key \<subseteq> set_bits (bitarray @ [ucast k]))"
proof -
  define f where "f = bitarray @ [ucast k :: byte]"
  define len :: size_t where "len = of_nat (length f)"
  have k30: "unat k \<le> 30" using assms(4) by (simp add: word_le_nat_alt)
  have "unat (ucast k :: byte) = take_bit 8 (unat k)" by (simp add: unsigned_ucast_eq)
  also have "\<dots> = unat k" using k30 by (intro take_bit_nat_eq_self) simp
  finally have kb: "unat (ucast k :: byte) = unat k" .
  with k30 have n30: "\<not> 30 < (ucast k :: byte)" by (simp add: word_less_nat_alt)
  have ks: "unat (scast (ucast k :: byte) :: size_t) = unat k"
    using scast_byte_le_30[OF n30] kb by simp
  have n30': "\<not> 30 < (scast (ucast k :: byte) :: size_t)"
    using n30 by (simp add: scast_byte_gt_30)
  have lf: "length f = unat B + 1" by (simp add: f_def assms(3))
  have "len = of_nat (unat B) + 1" by (simp add: len_def lf)
  then have len: "len = B + 1" by simp
  have ul: "unat len = unat B + 1" unfolding len using assms(2) by (rule unat_plus_1)
  have "0 < unat B" using assms(1) by (simp add: unat_gt_0)
  with ul have ge2: "\<not> len < 2" by (simp add: word_less_nat_alt)
  have m1: "len - 1 = B" by (simp add: len)
  have last: "f ! unat B = ucast k" by (simp add: f_def assms(3)[symmetric])
  have nz: "B * 8 \<noteq> 0" using assms(2,1) by (rule times_8_nonzero)
  have "unat (B * 8) \<le> 8 * unat B" using unat_times_8[OF assms(2)] by simp
  moreover have "unat B \<le> length f" using lf by simp
  ultimately have t: "test_probes (unat k) (B * 8) (unat B) delta h f
      = Inr (probe_set (unat k) (B * 8) delta h \<subseteq> set_bits f)" for delta h
    using nz by (intro test_probes_ok)
  have "KeyMayMatch Hash this key f
      = Inr (key_probes Hash k (B * 8) key \<subseteq> set_bits f)"
    using ge2 n30' 
    by (simp add: KeyMayMatch_def Let_def len_def[symmetric] m1 last ks t key_probes_def)
  then show ?thesis by (simp add: f_def)
qed


lemma CreateFilter_zero_bytes:
  assumes "filter_bytes this (length keys) = 0"
  shows "CreateFilter Hash this keys dst =
    (if keys = [] \<or> k_m this = 0 then Inr (dst @ [ucast (k_m this)]) else Inl DivisionByZero)"
  by (simp add: CreateFilter_unfold assms add_keys_zero_bits)

lemma CreateFilter_nonzero_bytes:
  assumes "filter_bytes this (length keys) \<noteq> 0"
  shows "\<exists>bitarray. CreateFilter Hash this keys dst = Inr (dst @ bitarray @ [ucast (k_m this)])
      \<and> length bitarray = unat (filter_bytes this (length keys))
      \<and> set_bits (bitarray @ [ucast (k_m this)])
        = set_bits (replicate (unat (filter_bytes this (length keys))) 0 @ [ucast (k_m this)])
          \<union> (\<Union>key\<in>set keys. key_probes Hash (k_m this) (filter_bytes this (length keys) * 8) key)"
proof -
  from build_nonzero[OF assms filter_bytes_less, of Hash "k_m this" keys "ucast (k_m this)"]
  obtain bitarray where
    r: "add_keys Hash (k_m this) (filter_bytes this (length keys) * 8)
          (unat (filter_bytes this (length keys))) keys
          (replicate (unat (filter_bytes this (length keys))) 0 @ [ucast (k_m this)])
        = Inr (bitarray @ [ucast (k_m this)])"
      "length bitarray = unat (filter_bytes this (length keys))"
      "set_bits (bitarray @ [ucast (k_m this)])
        = set_bits (replicate (unat (filter_bytes this (length keys))) 0 @ [ucast (k_m this)])
          \<union> (\<Union>key\<in>set keys. key_probes Hash (k_m this) (filter_bytes this (length keys) * 8) key)"
    by blast
  have "CreateFilter Hash this keys dst = Inr (dst @ bitarray @ [ucast (k_m this)])"
    by (simp add: CreateFilter_unfold r(1))
  with r(2,3) show ?thesis by blast
qed

text \<open>
  \<open>CreateFilter\<close> fails in one way only: the division by zero, when the byte count is 0
  and there is a key to add.
\<close>

lemma CreateFilter_never_out_of_bounds:
  "CreateFilter Hash this keys dst \<noteq> Inl OutOfBounds"
proof (cases "filter_bytes this (length keys) = 0")
  case True
  then show ?thesis by (simp add: CreateFilter_zero_bytes)
next
  case False
  from CreateFilter_nonzero_bytes[OF False, of Hash dst] show ?thesis by auto
qed

lemma CreateFilter_fails_iff:
  "CreateFilter Hash this keys dst = Inl DivisionByZero
    \<longleftrightarrow> filter_bytes this (length keys) = 0 \<and> keys \<noteq> [] \<and> k_m this \<noteq> 0"
proof (cases "filter_bytes this (length keys) = 0")
  case True
  then show ?thesis by (simp add: CreateFilter_zero_bytes)
next
  case False
  from CreateFilter_nonzero_bytes[OF False, of Hash dst] show ?thesis using False by auto
qed

lemma KeyMayMatch_total:
  assumes "length bloom_filter \<le> 2 ^ 61"
  shows "\<exists>r. KeyMayMatch Hash this key bloom_filter = Inr r"
proof -
  define len :: size_t where "len = of_nat (length bloom_filter)"
  have ul: "unat len = length bloom_filter"
    unfolding len_def using assms by (intro size_as_word) simp
  show ?thesis
  proof (cases "len < 2")
    case True
    then have "KeyMayMatch Hash this key bloom_filter = Inr False"
      by (simp add: KeyMayMatch_def len_def)
    then show ?thesis by blast
  next
    case False
    then have ge: "2 \<le> length bloom_filter" using ul by (simp add: word_less_nat_alt)
    have lt: "length bloom_filter < 2 ^ 64" using assms by simp
    have m1: "unat (len - 1) = length bloom_filter - 1"
      unfolding len_def using ge lt by (rule size_minus_1(2))
    with assms ge have b61: "unat (len - 1) < 2 ^ 61" by simp
    have "len - 1 \<noteq> 0" using m1 ge by (auto simp add: unat_eq_0[symmetric])
    with b61 have nz: "(len - 1) * 8 \<noteq> 0" by (intro times_8_nonzero)
    have "unat ((len - 1) * 8) \<le> 8 * unat (len - 1)"
      using unat_times_8[OF b61] by simp
    moreover have "unat (len - 1) \<le> length bloom_filter" using m1 by simp
    ultimately have t: "test_probes j ((len - 1) * 8) (unat (len - 1)) delta h bloom_filter
        = Inr (probe_set j ((len - 1) * 8) delta h \<subseteq> set_bits bloom_filter)" for j delta h
      using nz by (intro test_probes_ok)
    show ?thesis
    proof (cases "30 < (scast (bloom_filter ! unat (len - 1)) :: size_t)")
      case True
      with False have "KeyMayMatch Hash this key bloom_filter = Inr True"
        by (simp add: KeyMayMatch_def Let_def len_def[symmetric])
      then show ?thesis by blast
    next
      case k: False
      with False have "KeyMayMatch Hash this key bloom_filter
          = test_probes (unat (scast (bloom_filter ! unat (len - 1)) :: size_t)) ((len - 1) * 8)
              (unat (len - 1)) (drop_bit 17 (BloomHash Hash key) OR push_bit 15 (BloomHash Hash key))
              (BloomHash Hash key) bloom_filter"
        by (simp add: KeyMayMatch_def Let_def len_def[symmetric])
      then show ?thesis by (simp only: t) blast
    qed
  qed
qed

text \<open>
  The bound on the filter is needed: with \<open>2 ^ 61 + 1\<close> bytes, \<^verbatim>\<open>(len - 1) * 8\<close> wraps
  around to 0.
\<close>

lemma KeyMayMatch_huge_filter:
  "KeyMayMatch Hash this key (replicate (2 ^ 61) 0 @ [1]) = Inl DivisionByZero"
proof -
  define f :: "byte list" where "f = replicate (2 ^ 61) 0 @ [1]"
  define len :: size_t where "len = of_nat (length f)"
  have "length f = 2 ^ 61 + 1" by (simp add: f_def)
  then have len: "len = 2 ^ 61 + 1" by (simp add: len_def)
  then have ge: "\<not> len < 2" by simp
  have m1: "len - 1 = 2 ^ 61" by (simp add: len)
  have bits: "(2 ^ 61 :: size_t) * 8 = 0" by simp
  have "f ! unat (2 ^ 61 :: size_t) = 1" by (simp add: f_def nth_append)
  then have k: "scast (f ! unat (2 ^ 61 :: size_t)) = (1 :: size_t)" by simp
  have t: "test_probes (unat (1 :: size_t)) 0 bytes delta h f = Inl DivisionByZero"
    for bytes delta h by simp
  have "KeyMayMatch Hash this key f = Inl DivisionByZero"
    unfolding KeyMayMatch_def Let_def len_def[symmetric] m1 k bits t
    using ge by simp
  then show ?thesis by (simp add: f_def)
qed

subsection \<open>Concrete runs\<close>

lemma policy_minus_1:
  "NewBloomFilterPolicy cvt (- 1) = \<lparr>bits_per_key_m = - 1, k_m = 1\<rparr>"
  by (simp add: NewBloomFilterPolicy_def Let_def cast_minus_1)

lemma policy_1:
  "NewBloomFilterPolicy cvt 1 = \<lparr>bits_per_key_m = 1, k_m = 1\<rparr>"
proof -
  have "uint (k_m (NewBloomFilterPolicy cvt 1)) = 1"
    using probe_count_formula[of 1 cvt] by simp
  then have "uint (k_m (NewBloomFilterPolicy cvt 1)) = uint (1 :: size_t)" by simp
  then have "k_m (NewBloomFilterPolicy cvt 1) = 1" by (rule word_uint_eqI)
  moreover have "bits_per_key_m (NewBloomFilterPolicy cvt 1) = 1"
    by (simp add: NewBloomFilterPolicy_def Let_def)
  ultimately show ?thesis by (cases "NewBloomFilterPolicy cvt 1") simp
qed

lemma bytes_minus_1_one_key:
  "filter_bytes \<lparr>bits_per_key_m = - 1, k_m = 1\<rparr> (length [[] :: Slice]) = 0"
  by (simp add: filter_bytes_def Let_def)

lemma bytes_minus_1_two_keys:
  "filter_bytes \<lparr>bits_per_key_m = - 1, k_m = 1\<rparr> (length [[] :: Slice, []]) = 0"
  by (simp add: filter_bytes_def Let_def)

lemma policy_10:
  "NewBloomFilterPolicy cvt 10 = \<lparr>bits_per_key_m = 10, k_m = 6\<rparr>"
proof -
  have "uint (k_m (NewBloomFilterPolicy cvt 10)) = uint (6 :: size_t)"
    using probe_count_formula[of 10 cvt] by simp
  then have "k_m (NewBloomFilterPolicy cvt 10) = 6" by (rule word_uint_eqI)
  moreover have "bits_per_key_m (NewBloomFilterPolicy cvt 10) = 10"
    by (simp add: NewBloomFilterPolicy_def Let_def)
  ultimately show ?thesis by (cases "NewBloomFilterPolicy cvt 10") simp
qed

lemma list_update_numeral: "(x # xs)[numeral n := y] = x # xs[pred_numeral n := y]"
  by (simp add: numeral_eq_Suc)

lemma replicate_numeral: "replicate (numeral n) x = x # replicate (pred_numeral n) x"
  by (simp add: numeral_eq_Suc)

lemma set_probes_numeral:
  "set_probes (numeral n) bits bytes delta h array =
     (if bits = 0 then Inl DivisionByZero
      else
        let bitpos :: uint32_t = ucast (ucast h mod bits) in
        if bytes \<le> unat (bitpos div 8) then Inl OutOfBounds
        else set_probes (pred_numeral n) bits bytes delta (h + delta)
               (array[unat (bitpos div 8) :=
                  array ! unat (bitpos div 8) OR push_bit (unat (bitpos mod 8)) 1]))"
  by (simp add: numeral_eq_Suc)

lemma test_probes_numeral:
  "test_probes (numeral n) bits bytes delta h array =
     (if bits = 0 then Inl DivisionByZero
      else
        let bitpos :: uint32_t = ucast (ucast h mod bits) in
        if bytes \<le> unat (bitpos div 8) then Inl OutOfBounds
        else if array ! unat (bitpos div 8) AND push_bit (unat (bitpos mod 8)) 1 = 0
          then Inr False
        else test_probes (pred_numeral n) bits bytes delta (h + delta) array)"
  by (simp add: numeral_eq_Suc)

lemmas eval_simps = list_update_numeral replicate_numeral set_probes_numeral test_probes_numeral
  CreateFilter_def KeyMayMatch_def Let_def BloomHash_def Hash_sample_def

lemma build_two_keys:
  "CreateFilter Hash_sample (NewBloomFilterPolicy cvt 10) [[1], [2]] [7]
     = Inr [7, 0, 96, 102, 0, 0, 128, 153, 1, 6]"
  by (simp add: policy_10 eval_simps)

section \<open>The claims on CreateFilter\<close>

text \<open>
  Claim C1 (no false negatives): for every policy object, made from any
  \<open>bits_per_key\<close>, and every key list, if \<open>CreateFilter\<close> returns and \<open>out\<close> is the
  new contents of the buffer, then for every key of the list \<open>KeyMayMatch\<close> on the
  bytes appended to the buffer returns true, under any policy object.
\<close>

theorem no_false_negatives:
  assumes "CreateFilter Hash (NewBloomFilterPolicy cvt bits_per_key) keys dst = Inr out"
    and "key \<in> set keys"
  shows "KeyMayMatch Hash this key (drop (length dst) out) = Inr True"
proof -
  define p where "p = NewBloomFilterPolicy cvt bits_per_key"
  define B where "B = filter_bytes p (length keys)"
  have k: "1 \<le> k_m p" "k_m p \<le> 30" using k_clamped[of cvt bits_per_key] by (simp_all add: p_def)
  then have k0: "k_m p \<noteq> 0" by auto
  from assms(2) have ne: "keys \<noteq> []" by auto
  have c: "CreateFilter Hash p keys dst = Inr out" using assms(1) by (simp add: p_def)
  have nz: "B \<noteq> 0"
  proof
    assume "B = 0"
    then have "filter_bytes p (length keys) = 0" by (simp add: B_def)
    from CreateFilter_zero_bytes[OF this, of Hash dst] c ne k0 show False by simp
  qed
  then have "filter_bytes p (length keys) \<noteq> 0" by (simp add: B_def)
  from CreateFilter_nonzero_bytes[OF this, of Hash dst] obtain bitarray where
    r: "CreateFilter Hash p keys dst = Inr (dst @ bitarray @ [ucast (k_m p)])"
      "length bitarray = unat B"
      "set_bits (bitarray @ [ucast (k_m p)])
        = set_bits (replicate (unat B) 0 @ [ucast (k_m p)])
          \<union> (\<Union>key\<in>set keys. key_probes Hash (k_m p) (B * 8) key)"
    unfolding B_def by blast
  from c r(1) have "out = dst @ bitarray @ [ucast (k_m p)]" by simp
  then have f: "drop (length dst) out = bitarray @ [ucast (k_m p)]" by simp
  have "unat B < 2 ^ 61" unfolding B_def by (rule filter_bytes_less)
  from KeyMayMatch_built[OF nz this r(2) k(2), of Hash this key]
  have "KeyMayMatch Hash this key (bitarray @ [ucast (k_m p)])
      = Inr (key_probes Hash (k_m p) (B * 8) key \<subseteq> set_bits (bitarray @ [ucast (k_m p)]))" .
  moreover have "key_probes Hash (k_m p) (B * 8) key \<subseteq> set_bits (bitarray @ [ucast (k_m p)])"
    unfolding r(3) using assms(2) by blast
  ultimately show ?thesis by (simp add: f)
qed

theorem no_false_negatives_witness:
  "CreateFilter Hash_sample (NewBloomFilterPolicy cvt_wrap 10) [[1], [2]] [7]
      = Inr [7, 0, 96, 102, 0, 0, 128, 153, 1, 6]
    \<and> [2] \<in> set [[1], [2 :: byte]]
    \<and> KeyMayMatch Hash_sample (NewBloomFilterPolicy cvt_wrap 3) [2]
        (drop (length [7 :: byte]) [7, 0, 96, 102, 0, 0, 128, 153, 1, 6]) = Inr True"
proof -
  have c: "CreateFilter Hash_sample (NewBloomFilterPolicy cvt_wrap 10) [[1], [2]] [7]
      = Inr [7, 0, 96, 102, 0, 0, 128, 153, 1, 6]"
    by (rule build_two_keys)
  have m: "[2] \<in> set [[1], [2 :: byte]]" by simp
  from no_false_negatives[OF c m, of "NewBloomFilterPolicy cvt_wrap 3"] c m
  show ?thesis by simp
qed

text \<open>
  Claim C9 (order independence): for every policy object, every key list and every
  permutation of it (a list with the same multiset of keys), \<open>CreateFilter\<close> gives the
  same result, appended bytes and failure alike.
\<close>

theorem order_independence:
  assumes "mset keys' = mset keys"
  shows "CreateFilter Hash this keys' dst = CreateFilter Hash this keys dst"
proof -
  have len: "length keys' = length keys" using assms by (rule mset_eq_length)
  have set: "set keys' = set keys" using assms by (rule mset_eq_setD)
  show ?thesis
  proof (cases "filter_bytes this (length keys) = 0")
    case True
    have "keys' = [] \<longleftrightarrow> keys = []" using len by auto
    then show ?thesis
      using True by (simp add: CreateFilter_zero_bytes len)
  next
    case False
    from CreateFilter_nonzero_bytes[OF False, of Hash dst] obtain b1 where
      r1: "CreateFilter Hash this keys dst = Inr (dst @ b1 @ [ucast (k_m this)])"
        "length b1 = unat (filter_bytes this (length keys))"
        "set_bits (b1 @ [ucast (k_m this)])
          = set_bits (replicate (unat (filter_bytes this (length keys))) 0 @ [ucast (k_m this)])
            \<union> (\<Union>key\<in>set keys. key_probes Hash (k_m this) (filter_bytes this (length keys) * 8) key)"
      by blast
    from False have "filter_bytes this (length keys') \<noteq> 0" by (simp add: len)
    from CreateFilter_nonzero_bytes[OF this, of Hash dst] obtain b2 where
      r2: "CreateFilter Hash this keys' dst = Inr (dst @ b2 @ [ucast (k_m this)])"
        "length b2 = unat (filter_bytes this (length keys))"
        "set_bits (b2 @ [ucast (k_m this)])
          = set_bits (replicate (unat (filter_bytes this (length keys))) 0 @ [ucast (k_m this)])
            \<union> (\<Union>key\<in>set keys. key_probes Hash (k_m this) (filter_bytes this (length keys) * 8) key)"
      unfolding len set by blast
    have "b2 @ [ucast (k_m this)] = b1 @ [ucast (k_m this)]"
      using r1(2,3) r2(2,3) by (intro array_eqI) simp_all
    then show ?thesis by (simp add: r1(1) r2(1))
  qed
qed

theorem order_independence_witness:
  "mset [[2], [1 :: byte]] = mset [[1], [2]]
    \<and> CreateFilter Hash_sample (NewBloomFilterPolicy cvt_wrap 10) [[2], [1]] [7]
      = Inr [7, 0, 96, 102, 0, 0, 128, 153, 1, 6]"
proof -
  have m: "mset [[2], [1 :: byte]] = mset [[1], [2]]" by simp
  from order_independence[OF m, of Hash_sample "NewBloomFilterPolicy cvt_wrap 10" "[7]"]
  show ?thesis using m by (simp only: build_two_keys)
qed

text \<open>
  Claim C2 as stated: no operation can fail, for every input, non-positive
  \<open>bits_per_key\<close> included.  With \<open>bits_per_key = - 1\<close> the member
  \<^verbatim>\<open>bits_per_key_\<close> is \<open>2 ^ 64 - 1\<close>; for one key \<^verbatim>\<open>bits + 7\<close> wraps around to 6,
  \<^verbatim>\<open>bytes\<close> and \<^verbatim>\<open>bits\<close> are 0, and the first probe computes \<^verbatim>\<open>h % 0\<close>.
\<close>

theorem negative_bits_per_key_counterexample:
  "CreateFilter Hash_sample (NewBloomFilterPolicy cvt_wrap (- 1)) [[]] [] = Inl DivisionByZero"
  using CreateFilter_zero_bytes[OF bytes_minus_1_one_key, of Hash_sample "[]"]
  by (simp add: policy_minus_1)

text \<open>
  Claim C2, amended: for every \<open>bits_per_key \<ge> 0\<close> and every key list, and for every
  \<open>bits_per_key\<close> when the key list is empty, \<open>CreateFilter\<close> completes with a defined
  result, and so does \<open>KeyMayMatch\<close> for every key and every filter: every modulo has a
  non-zero divisor and every access to the bit array is within bounds.  The number of
  keys is an \<^verbatim>\<open>int\<close>, below \<open>2 ^ 31\<close>, and a filter has at most \<open>2 ^ 61\<close> bytes.
\<close>

theorem no_failure_nonnegative:
  assumes "0 \<le> sint bits_per_key \<or> keys = []" and "length keys < 2 ^ 31"
    and "length bloom_filter \<le> 2 ^ 61"
  shows "(\<exists>out. CreateFilter Hash (NewBloomFilterPolicy cvt bits_per_key) keys dst = Inr out)
    \<and> (\<exists>r. KeyMayMatch Hash this key bloom_filter = Inr r)"
proof
  from assms(1) have "0 \<le> sint bits_per_key \<or> length keys = 0" by simp
  from filter_bytes_value[OF this assms(2), of cvt]
  have "unat (filter_bytes (NewBloomFilterPolicy cvt bits_per_key) (length keys)) \<noteq> 0"
    by simp
  then have "filter_bytes (NewBloomFilterPolicy cvt bits_per_key) (length keys) \<noteq> 0"
    by auto
  from CreateFilter_nonzero_bytes[OF this, of Hash dst]
  show "\<exists>out. CreateFilter Hash (NewBloomFilterPolicy cvt bits_per_key) keys dst = Inr out"
    by blast
  show "\<exists>r. KeyMayMatch Hash this key bloom_filter = Inr r"
    using assms(3) by (rule KeyMayMatch_total)
qed

theorem no_failure_nonnegative_witness:
  "0 \<le> sint (10 :: 32 word) \<and> length [[1], [2 :: byte]] < 2 ^ 31
    \<and> length [0, 96, 102, 0, 0, 128, 153, 1, 6 :: byte] \<le> 2 ^ 61
    \<and> (\<exists>out. CreateFilter Hash_sample (NewBloomFilterPolicy cvt_wrap 10) [[1], [2]] [7] = Inr out)
    \<and> (\<exists>out. CreateFilter Hash_sample (NewBloomFilterPolicy cvt_wrap (- 1)) [] [7] = Inr out)
    \<and> (\<exists>r. KeyMayMatch Hash_sample (NewBloomFilterPolicy cvt_wrap 10) [3]
          [0, 96, 102, 0, 0, 128, 153, 1, 6] = Inr r)"
  using no_failure_nonnegative
    [of 10 "[[1], [2]]" "[0, 96, 102, 0, 0, 128, 153, 1, 6]" Hash_sample cvt_wrap "[7]"
      "NewBloomFilterPolicy cvt_wrap 10" "[3]"]
    no_failure_nonnegative
    [of "- 1" "[]" "[0, 96, 102, 0, 0, 128, 153, 1, 6]" Hash_sample cvt_wrap "[7]"
      "NewBloomFilterPolicy cvt_wrap 10" "[3]"]
  by simp

text \<open>
  Claim C5 as stated: for every key list of length \<open>n\<close>, \<open>CreateFilter\<close> appends
  \<open>bytes + 1\<close> bytes with \<open>bytes = ceil (max (n * bits_per_key) 64 / 8)\<close>.  For
  \<open>bits_per_key = - 1\<close> and two keys that is 8 bytes and the byte of \<open>k\<close>; the code
  computes \<^verbatim>\<open>bits = 2 ^ 64 - 2\<close>, \<^verbatim>\<open>bytes = 0\<close> and divides by zero.
\<close>

theorem negative_layout_counterexample:
  "CreateFilter Hash_sample (NewBloomFilterPolicy cvt_wrap (- 1)) [[], []] [] = Inl DivisionByZero"
  using CreateFilter_zero_bytes[OF bytes_minus_1_two_keys, of Hash_sample "[]"]
  by (simp add: policy_minus_1)

text \<open>
  Claim C5, amended: for every \<open>bits_per_key \<ge> 0\<close> and every key list of length
  \<open>n < 2 ^ 31\<close>, and for every \<open>bits_per_key\<close> when the list is empty, \<open>CreateFilter\<close>
  appends exactly \<open>bytes + 1\<close> bytes, where
  \<open>bytes = ceil (max (n * bits_per_key) 64 / 8)\<close>: the bit array followed by one
  trailing byte holding \<open>k\<close>.  For \<open>n = 1\<close> and \<open>bits_per_key = 1\<close> the bit array is
  8 bytes.
\<close>

theorem filter_layout:
  assumes "0 \<le> sint bits_per_key \<or> keys = []" and "length keys < 2 ^ 31"
  shows "\<exists>bitarray kb.
      CreateFilter Hash (NewBloomFilterPolicy cvt bits_per_key) keys dst
        = Inr (dst @ bitarray @ [kb])
      \<and> length bitarray = (max (length keys * nat (sint bits_per_key)) 64 + 7) div 8
      \<and> unat kb = unat (k_m (NewBloomFilterPolicy cvt bits_per_key))"
proof -
  define p where "p = NewBloomFilterPolicy cvt bits_per_key"
  have u: "unat (filter_bytes p (length keys))
      = (max (length keys * nat (sint bits_per_key)) 64 + 7) div 8"
  proof -
    from assms(1) have "0 \<le> sint bits_per_key \<or> length keys = 0" by simp
    then show ?thesis unfolding p_def using assms(2) by (rule filter_bytes_value)
  qed
  then have "unat (filter_bytes p (length keys)) \<noteq> 0" by simp
  then have "filter_bytes p (length keys) \<noteq> 0" by auto
  from CreateFilter_nonzero_bytes[OF this, of Hash dst] obtain bitarray where
    r: "CreateFilter Hash p keys dst = Inr (dst @ bitarray @ [ucast (k_m p)])"
      "length bitarray = unat (filter_bytes p (length keys))"
    by blast
  have "k_m p \<le> 30" using k_clamped[of cvt bits_per_key] by (simp add: p_def)
  then have k30: "unat (k_m p) \<le> 30" by (simp add: word_le_nat_alt)
  have "unat (ucast (k_m p) :: byte) = take_bit 8 (unat (k_m p))"
    by (simp add: unsigned_ucast_eq)
  also have "\<dots> = unat (k_m p)" using k30 by (intro take_bit_nat_eq_self) simp
  finally have "unat (ucast (k_m p) :: byte) = unat (k_m p)" .
  with r u show ?thesis unfolding p_def by metis
qed

theorem filter_layout_witness:
  "0 \<le> sint (1 :: 32 word) \<and> length [[] :: Slice] < 2 ^ 31
    \<and> (\<exists>bitarray kb.
        CreateFilter Hash_sample (NewBloomFilterPolicy cvt_wrap 1) [[]] [] = Inr ([] @ bitarray @ [kb])
        \<and> length bitarray = 8 \<and> unat kb = 1)"
  using filter_layout[of 1 "[[]]" Hash_sample cvt_wrap "[]"]
  by (simp add: policy_1)

end
